theory Spec2Isabelle
  imports Main "HOL-Library.AList"
begin

section \<open>Objects, the heap and the trace of effects\<close>

text \<open>
  Builds, jobs and tasks are Python objects: they are compared by identity and their
  attributes change while collections hold them. The model therefore keeps references
  (natural numbers) in every collection and the attributes in a heap.
\<close>

type_synonym build_ref = nat
type_synonym job_ref = nat
type_synonym fut = nat

text \<open>
  The attributes of a build that the queue and the stream handlers read:
  \<^verbatim>\<open>build.commit_hash\<close>, \<^verbatim>\<open>build.clone_url\<close>, \<^verbatim>\<open>build.completed\<close> and the
  dictionary \<^verbatim>\<open>build.jobs\<close> (job name to job, in insertion order).
\<close>

record build =
  commit_hash :: string
  clone_url :: string
  build_completed :: bool
  build_jobs :: "(string \<times> job_ref) list"

record job =
  job_name_attr :: string
  job_build :: build_ref
  job_completed :: bool

text \<open>
  A task made by \<^verbatim>\<open>create_task(job.run())\<close>. It is pending until the coroutine ends;
  then it is done with an outcome and its done callbacks are scheduled (\<open>Finished\<close>);
  once they have run it is \<open>Settled\<close>. The callback \<^verbatim>\<open>job_done\<close> is registered on the
  task right after its creation, before any \<^verbatim>\<open>asyncio.wait\<close> or \<^verbatim>\<open>asyncio.gather\<close>
  adds its own, and callbacks run in the order of their registration: a waiter is woken
  by a task only after \<^verbatim>\<open>job_done\<close> has run for it, that is by a settled task.
\<close>

datatype task_outcome = TaskResult | TaskException | TaskCancelled

datatype task_status = Pending | Finished task_outcome | Settled task_outcome

record task =
  task_job :: job_ref
  task_status :: task_status
  cancel_requested :: bool

datatype log_level = INFO | WARNING | ERROR

text \<open>The log lines of \<^verbatim>\<open>jobqueue.py\<close>, one constructor per format string.\<close>

datatype log_msg =
    AddedBuild string string
  | WaitingForJob
  | ProcessingJob job_ref
  | RunlimitReached int
  | JobFinished job_ref
  | JobNotInRunningSet job_ref
  | CancellingRunningJobs
  | CancelledJobs nat nat string
  | CancelUnknownJob job_ref

text \<open>
  Calls that leave the queue: log lines, and calls of methods of \<^verbatim>\<open>Job\<close>, \<^verbatim>\<open>Build\<close>
  and of tasks. They are appended to a trace in the order in which they happen.
\<close>

datatype effect =
    Logged log_level log_msg
  | JobErrorCall job_ref string
  | EnqueueActionsCall build_ref
  | BuildAbortCall build_ref
  | TaskCancelCall fut

datatype py_error = KeyError | IndexError | ValueError | AttributeError

text \<open>
  A call either returns or raises; a raise keeps the state as it was when the exception
  left the function, with every mutation done before.
\<close>

datatype 'a outcome = Returns 'a | Raises py_error 'a

section \<open>The job queue (\<^verbatim>\<open>jobqueue.py\<close>)\<close>

text \<open>
  The fields of \<^verbatim>\<open>Queue\<close> (\<open>pending_builds\<close>, \<open>build_ids\<close>, \<open>job_queue\<close>, \<open>jobs\<close>,
  \<open>cancelled\<close>, \<open>max_running\<close>), the heap, the tasks of the event loop and the trace.
  \<open>max_jobs_queued\<close> is \<^verbatim>\<open>CFG.max_jobs_queued\<close>, the \<^verbatim>\<open>maxsize\<close> of the
  \<^verbatim>\<open>asyncio.Queue\<close>; the configuration module is not part of the sources, so the value
  is a parameter. \<open>jobs\<close> is a dictionary: an association list with distinct keys, in
  insertion order.
\<close>

record world =
  builds :: "build_ref \<Rightarrow> build"
  job_objs :: "job_ref \<Rightarrow> job"
  tasks :: "fut \<Rightarrow> task"
  next_task :: fut
  pending_builds :: "build_ref set"
  build_ids :: "string \<rightharpoonup> build_ref"
  job_queue :: "job_ref list"
  max_jobs_queued :: int
  jobs :: "(job_ref \<times> fut) list"
  cancelled :: bool
  max_running :: int
  trace :: "effect list"

text \<open>\<^verbatim>\<open>Queue.__init__\<close>, on a heap \<open>bs\<close>, \<open>js\<close> and a tasks table \<open>ts\<close>.\<close>

definition Queue_init ::
  "(build_ref \<Rightarrow> build) \<Rightarrow> (job_ref \<Rightarrow> job) \<Rightarrow> (fut \<Rightarrow> task) \<Rightarrow> int \<Rightarrow> int \<Rightarrow> world" where
  "Queue_init bs js ts cfg_max_jobs_queued max_running_arg =
     \<lparr> builds = bs, job_objs = js, tasks = ts, next_task = 0,
       pending_builds = {}, build_ids = Map.empty, job_queue = [],
       max_jobs_queued = cfg_max_jobs_queued, jobs = [], cancelled = False,
       max_running = max_running_arg, trace = [] \<rparr>"

definition logging :: "log_level \<Rightarrow> log_msg \<Rightarrow> world \<Rightarrow> world" where
  "logging lvl msg s = s\<lparr>trace := trace s @ [Logged lvl msg]\<rparr>"

text \<open>
  \<^verbatim>\<open>asyncio.Queue.full\<close>: a queue whose \<^verbatim>\<open>maxsize\<close> is zero or negative is never
  full; otherwise it is full when it holds at least \<^verbatim>\<open>maxsize\<close> items.
\<close>

definition full :: "world \<Rightarrow> bool" where
  "full s = (0 < max_jobs_queued s \<and> max_jobs_queued s \<le> int (length (job_queue s)))"

text \<open>
  Modelled from the spec: \<^verbatim>\<open>Job.error\<close> (\<^verbatim>\<open>job.py\<close> is not part of the sources) marks
  the job failed with the given error text. The model records the call and its text.
\<close>

definition job_error :: "job_ref \<Rightarrow> string \<Rightarrow> world \<Rightarrow> world" where
  "job_error j msg s = s\<lparr>trace := trace s @ [JobErrorCall j msg]\<rparr>"

text \<open>
  \<^verbatim>\<open>Queue.add_job\<close>: a completed job is ignored; \<^verbatim>\<open>put_nowait\<close> appends the job, or
  raises \<^verbatim>\<open>QueueFull\<close> on a full queue, which the handler turns into \<^verbatim>\<open>job.error\<close>.
\<close>

definition add_job :: "job_ref \<Rightarrow> world \<Rightarrow> world" where
  "add_job j s =
     (if job_completed (job_objs s j) then s
      else if full s then job_error j ''overloaded; job was dropped.'' s
      else s\<lparr>job_queue := job_queue s @ [j]\<rparr>)"

text \<open>
  Modelled from the spec: \<^verbatim>\<open>Build.enqueue_actions\<close> (\<^verbatim>\<open>build.py\<close> is not part of the
  sources) is the build's callback that receives the queue and calls \<^verbatim>\<open>add_job\<close> for
  each of its jobs.
\<close>

definition enqueue_actions :: "build_ref \<Rightarrow> world \<Rightarrow> world" where
  "enqueue_actions b s =
     fold add_job (map snd (build_jobs (builds s b)))
       (s\<lparr>trace := trace s @ [EnqueueActionsCall b]\<rparr>)"

definition add_build :: "build_ref \<Rightarrow> world \<Rightarrow> world" where
  "add_build b s =
     (let s1 = logging INFO (AddedBuild (commit_hash (builds s b)) (clone_url (builds s b))) s
      in if b \<in> pending_builds s1 then s1
         else enqueue_actions b
                (s1\<lparr>pending_builds := insert b (pending_builds s1),
                    build_ids := (build_ids s1)(commit_hash (builds s1 b) \<mapsto> b)\<rparr>))"

text \<open>
  \<^verbatim>\<open>Queue.remove_build\<close>: \<^verbatim>\<open>del self.build_ids[build.commit_hash]\<close> raises
  \<^verbatim>\<open>KeyError\<close> on a missing key; then \<^verbatim>\<open>self.pending_builds.remove(build)\<close> raises
  \<^verbatim>\<open>KeyError\<close> on a missing element, after the first deletion has happened.
\<close>

definition remove_build :: "build_ref \<Rightarrow> world \<Rightarrow> world outcome" where
  "remove_build b s =
     (let h = commit_hash (builds s b)
      in if build_ids s h = None then Raises KeyError s
         else let s1 = s\<lparr>build_ids := (build_ids s)(h := None)\<rparr>
              in if b \<notin> pending_builds s1 then Raises KeyError s1
                 else Returns (s1\<lparr>pending_builds := pending_builds s1 - {b}\<rparr>))"

text \<open>
  Modelled from the spec: \<^verbatim>\<open>Build.abort\<close> (not part of the sources) asks the build to
  cancel its own jobs; the model records the call.
\<close>

definition build_abort :: "build_ref \<Rightarrow> world \<Rightarrow> world" where
  "build_abort b s = s\<lparr>trace := trace s @ [BuildAbortCall b]\<rparr>"

definition abort_build :: "string \<Rightarrow> world \<Rightarrow> world" where
  "abort_build build_id s =
     (case build_ids s build_id of
        None \<Rightarrow> s
      | Some b \<Rightarrow> if \<not> build_completed (builds s b) then build_abort b s else s)"

definition is_pending :: "string \<Rightarrow> world \<Rightarrow> bool" where
  "is_pending h s = (h \<in> dom (build_ids s))"

text \<open>
  \<^verbatim>\<open>Task.cancel\<close>: a request on a pending task, nothing on a task that is done.
\<close>

definition task_cancel :: "fut \<Rightarrow> world \<Rightarrow> world" where
  "task_cancel f s =
     (let s1 = s\<lparr>trace := trace s @ [TaskCancelCall f]\<rparr>
      in if task_status (tasks s1 f) = Pending
         then s1\<lparr>tasks := (tasks s1)(f := (tasks s1 f)\<lparr>cancel_requested := True\<rparr>)\<rparr>
         else s1)"

definition cancel_job :: "job_ref \<Rightarrow> world \<Rightarrow> world" where
  "cancel_job j s =
     (case map_of (jobs s) j of
        None \<Rightarrow> logging ERROR (CancelUnknownJob j) s
      | Some f \<Rightarrow> task_cancel f s)"

text \<open>
  \<^verbatim>\<open>Queue.job_done\<close>, the done callback of a task: \<^verbatim>\<open>del self.jobs[job]\<close>, with the
  \<^verbatim>\<open>KeyError\<close> of a missing key caught and logged.
\<close>

definition job_done :: "job_ref \<Rightarrow> world \<Rightarrow> world" where
  "job_done j s =
     (let s1 = logging INFO (JobFinished j) s
      in if j \<in> fst ` set (jobs s1) then s1\<lparr>jobs := AList.delete j (jobs s1)\<rparr>
         else logging ERROR (JobNotInRunningSet j) s1)"

section \<open>The scheduler loop and the event loop\<close>

text \<open>\<^verbatim>\<open>asyncio.get_event_loop().create_task(job.run())\<close>: a fresh pending task.\<close>

definition create_task :: "job_ref \<Rightarrow> world \<Rightarrow> fut \<times> world" where
  "create_task j s =
     (next_task s,
      s\<lparr>tasks := (tasks s)(next_task s :=
            \<lparr>task_job = j, task_status = Pending, cancel_requested = False\<rparr>),
        next_task := Suc (next_task s)\<rparr>)"

text \<open>
  \<^verbatim>\<open>process_jobs\<close> is a coroutine. It is cut at its two awaits into segments that run
  without interruption; between two segments the event loop runs other callbacks.
  \<open>LoopHead\<close> is the test of the \<^verbatim>\<open>while\<close>, \<open>AwaitGet\<close> the await of
  \<^verbatim>\<open>self.job_queue.get()\<close>, \<open>AwaitSlot fs\<close> the await of \<^verbatim>\<open>asyncio.wait\<close> on the
  tasks \<open>fs\<close> (the values of the running map when the call was made), \<open>Exited\<close> the
  end of the loop.
\<close>

datatype sched_pc = LoopHead | AwaitGet | AwaitSlot "fut list" | Exited

definition loop_head :: "world \<Rightarrow> sched_pc \<times> world" where
  "loop_head s =
     (if cancelled s then (Exited, s)
      else (AwaitGet, if job_queue s = [] then logging INFO WaitingForJob s else s))"

text \<open>
  From the return of \<^verbatim>\<open>get()\<close> to the next await: \<open>None\<close> while the queue is empty
  (the coroutine stays suspended).
\<close>

definition admit :: "world \<Rightarrow> (sched_pc \<times> world) option" where
  "admit s =
     (case job_queue s of
        [] \<Rightarrow> None
      | j # rest \<Rightarrow>
          let s1 = logging INFO (ProcessingJob j) (s\<lparr>job_queue := rest\<rparr>);
              (f, s2) = create_task j s1;
              s3 = s2\<lparr>jobs := AList.update j f (jobs s2)\<rparr>
          in Some (if max_running s3 \<le> int (length (jobs s3)) \<or> cancelled s3
                   then (AwaitSlot (map snd (jobs s3)),
                         logging WARNING (RunlimitReached (max_running s3)) s3)
                   else (LoopHead, s3)))"

definition is_settled :: "task \<Rightarrow> bool" where
  "is_settled t = (case task_status t of Settled _ \<Rightarrow> True | _ \<Rightarrow> False)"

text \<open>
  \<^verbatim>\<open>asyncio.wait(fs, return_when=FIRST_COMPLETED)\<close> returns once one of the tasks has
  completed and its earlier callbacks have run.
\<close>

definition first_completed :: "fut list \<Rightarrow> world \<Rightarrow> bool" where
  "first_completed fs s = list_ex (\<lambda>f. is_settled (tasks s f)) fs"

text \<open>
  \<^verbatim>\<open>Queue.cancel\<close>, a coroutine with one await: \<open>cancel_begin\<close> runs to the await of
  \<^verbatim>\<open>asyncio.gather\<close> (or to the early return), \<open>cancel_resume\<close> from the result of
  \<^verbatim>\<open>gather\<close> to the end.
\<close>

datatype cancel_pc = CancelReturned | AwaitGather "fut list" nat

definition cancel_begin :: "world \<Rightarrow> cancel_pc \<times> world" where
  "cancel_begin s =
     (let to_cancel = length (jobs s);
          s1 = s\<lparr>cancelled := True\<rparr>
      in if to_cancel = 0 then (CancelReturned, s1)
         else let s2 = logging INFO CancellingRunningJobs s1;
                  s3 = fold task_cancel (map snd (jobs s2)) s2
              in (AwaitGather (map snd (jobs s3)) to_cancel, s3))"

text \<open>
  \<^verbatim>\<open>asyncio.gather(*fs, return_exceptions=True)\<close>: no result before every task has
  settled; then the list of the outcomes, in the order of \<open>fs\<close>, exceptions and
  cancellations as values.
\<close>

definition task_result :: "task \<Rightarrow> task_outcome option" where
  "task_result t = (case task_status t of Settled r \<Rightarrow> Some r | _ \<Rightarrow> None)"

definition gather :: "fut list \<Rightarrow> world \<Rightarrow> task_outcome list option" where
  "gather fs s =
     (if list_all (\<lambda>f. is_settled (tasks s f)) fs
      then Some (map (\<lambda>f. the (task_result (tasks s f))) fs)
      else None)"

definition cancel_resume :: "fut list \<Rightarrow> nat \<Rightarrow> world \<Rightarrow> world option" where
  "cancel_resume fs to_cancel s =
     (case gather fs s of
        None \<Rightarrow> None
      | Some results \<Rightarrow>
          let cancels = filter (\<lambda>res. res = TaskCancelled) results
          in Some (logging INFO
                     (CancelledJobs (length cancels) to_cancel (if 1 < to_cancel then ''s'' else []))
                     s))"

text \<open>
  The whole system: the world, the place where \<^verbatim>\<open>process_jobs\<close> stands, and the calls
  of \<^verbatim>\<open>cancel\<close> that wait in \<^verbatim>\<open>gather\<close>.
\<close>

record system =
  sys_world :: world
  sched :: sched_pc
  cancel_waits :: "(fut list \<times> nat) list"

text \<open>
  What can happen next: the scheduler runs its next segment, a task ends with some
  outcome, the done callback of an ended task runs, a job is marked completed by its
  own code, or one of the public methods of the queue is called.
\<close>

datatype event =
    Sched
  | TaskEnds fut task_outcome
  | DoneCallback fut
  | JobCompletes job_ref
  | AddJob job_ref
  | AddBuild build_ref
  | RemoveBuild build_ref
  | AbortBuild string
  | CancelJob job_ref
  | Cancel
  | CancelResumes

definition sched_step :: "system \<Rightarrow> system" where
  "sched_step c =
     (case sched c of
        LoopHead \<Rightarrow> (let (pc, s) = loop_head (sys_world c) in c\<lparr>sys_world := s, sched := pc\<rparr>)
      | AwaitGet \<Rightarrow>
          (case admit (sys_world c) of
             None \<Rightarrow> c
           | Some (pc, s) \<Rightarrow> c\<lparr>sys_world := s, sched := pc\<rparr>)
      | AwaitSlot fs \<Rightarrow> if first_completed fs (sys_world c) then c\<lparr>sched := LoopHead\<rparr> else c
      | Exited \<Rightarrow> c)"

definition task_ends :: "fut \<Rightarrow> task_outcome \<Rightarrow> world \<Rightarrow> world" where
  "task_ends f r s =
     (if f < next_task s \<and> task_status (tasks s f) = Pending
      then s\<lparr>tasks := (tasks s)(f := (tasks s f)\<lparr>task_status := Finished r\<rparr>)\<rparr>
      else s)"

definition done_callback :: "fut \<Rightarrow> world \<Rightarrow> world" where
  "done_callback f s =
     (case task_status (tasks s f) of
        Finished r \<Rightarrow>
          job_done (task_job (tasks s f))
            (s\<lparr>tasks := (tasks s)(f := (tasks s f)\<lparr>task_status := Settled r\<rparr>)\<rparr>)
      | _ \<Rightarrow> s)"

definition job_completes :: "job_ref \<Rightarrow> world \<Rightarrow> world" where
  "job_completes j s = s\<lparr>job_objs := (job_objs s)(j := (job_objs s j)\<lparr>job_completed := True\<rparr>)\<rparr>"

definition outcome_state :: "'a outcome \<Rightarrow> 'a" where
  "outcome_state r = (case r of Returns s \<Rightarrow> s | Raises _ s \<Rightarrow> s)"

fun resume_first :: "(fut list \<times> nat) list \<Rightarrow> world \<Rightarrow> (fut list \<times> nat) list \<times> world" where
  "resume_first [] s = ([], s)"
| "resume_first ((fs, n) # ws) s =
     (case cancel_resume fs n s of
        Some s' \<Rightarrow> (ws, s')
      | None \<Rightarrow> (let (ws', s') = resume_first ws s in ((fs, n) # ws', s')))"

definition exec :: "event \<Rightarrow> system \<Rightarrow> system" where
  "exec e c =
     (case e of
        Sched \<Rightarrow> sched_step c
      | TaskEnds f r \<Rightarrow> c\<lparr>sys_world := task_ends f r (sys_world c)\<rparr>
      | DoneCallback f \<Rightarrow> c\<lparr>sys_world := done_callback f (sys_world c)\<rparr>
      | JobCompletes j \<Rightarrow> c\<lparr>sys_world := job_completes j (sys_world c)\<rparr>
      | AddJob j \<Rightarrow> c\<lparr>sys_world := add_job j (sys_world c)\<rparr>
      | AddBuild b \<Rightarrow> c\<lparr>sys_world := add_build b (sys_world c)\<rparr>
      | RemoveBuild b \<Rightarrow> c\<lparr>sys_world := outcome_state (remove_build b (sys_world c))\<rparr>
      | AbortBuild h \<Rightarrow> c\<lparr>sys_world := abort_build h (sys_world c)\<rparr>
      | CancelJob j \<Rightarrow> c\<lparr>sys_world := cancel_job j (sys_world c)\<rparr>
      | Cancel \<Rightarrow>
          (case cancel_begin (sys_world c) of
             (CancelReturned, s) \<Rightarrow> c\<lparr>sys_world := s\<rparr>
           | (AwaitGather fs n, s) \<Rightarrow> c\<lparr>sys_world := s, cancel_waits := cancel_waits c @ [(fs, n)]\<rparr>)
      | CancelResumes \<Rightarrow>
          (let (ws, s) = resume_first (cancel_waits c) (sys_world c)
           in c\<lparr>sys_world := s, cancel_waits := ws\<rparr>))"

definition run :: "event list \<Rightarrow> system \<Rightarrow> system" where
  "run es c = foldl (\<lambda>c e. exec e c) c es"

text \<open>The system at the start: a fresh queue, \<^verbatim>\<open>process_jobs\<close> about to test its loop.\<close>

definition start ::
  "(build_ref \<Rightarrow> build) \<Rightarrow> (job_ref \<Rightarrow> job) \<Rightarrow> (fut \<Rightarrow> task) \<Rightarrow> int \<Rightarrow> int \<Rightarrow> system" where
  "start bs js ts cfg_max_jobs_queued max_running_arg =
     \<lparr> sys_world = Queue_init bs js ts cfg_max_jobs_queued max_running_arg,
       sched = LoopHead, cancel_waits = [] \<rparr>"

section \<open>Updates (\<^verbatim>\<open>update.py\<close>)\<close>

text \<open>
  Modelled from the spec: \<^verbatim>\<open>update.py\<close> is not part of the sources. The spec names
  the kinds JobCreated, JobState, StdOut, BuildState and BuildSource; \<^verbatim>\<open>httpd.py\<close>
  tests an update for the class \<^verbatim>\<open>JobUpdate\<close> (the per-job updates, which carry a
  \<^verbatim>\<open>job_name\<close>) and for these five classes. \<open>OtherJobUpdate\<close> stands for any other
  subclass of \<^verbatim>\<open>JobUpdate\<close> and \<open>OtherUpdate\<close> for an update of any other class.
  A job state carries its text and what its three methods \<^verbatim>\<open>is_errored()\<close>,
  \<^verbatim>\<open>is_succeeded()\<close> and \<^verbatim>\<open>is_finished()\<close> return.
\<close>

record job_state =
  state_job_name :: string
  state_text :: string
  is_errored :: bool
  is_succeeded :: bool
  is_finished :: bool

datatype update =
    JobCreated string
  | JobState job_state
  | StdOut string string
  | OtherJobUpdate string
  | BuildState string
  | BuildSource string
  | OtherUpdate






section \<open>The web socket handler (\<^verbatim>\<open>httpd.py\<close>)\<close>






datatype ws_effect = WriteMessage update | Close | WatchBuild build_ref | UnwatchBuild build_ref

record ws_handler =
  ws_build :: "build_ref option"
  state_filter :: "string \<Rightarrow> bool"
  filter' :: "string \<Rightarrow> bool"
  ws_out :: "ws_effect list"




definition WebSocketHandler_on_close :: "ws_handler \<Rightarrow> ws_handler" where
  "WebSocketHandler_on_close h =
     (case ws_build h of
        None \<Rightarrow> h
      | Some b \<Rightarrow> h\<lparr>ws_out := ws_out h @ [UnwatchBuild b]\<rparr>)"

section \<open>The plain stream handler (\<^verbatim>\<open>httpd.py\<close>)\<close>




















section \<open>A small installation\<close>

text \<open>
  One project \<open>demo\<close> with one build of commit \<open>abc123\<close> (build 0) that owns the jobs
  \<open>compile\<close> (job 0) and \<open>test\<close> (job 1); job 9 has already completed.
\<close>

definition example_builds :: "build_ref \<Rightarrow> build" where
  "example_builds b =
     \<lparr> commit_hash = ''abc123'', clone_url = ''git://demo'', build_completed = False,
       build_jobs = (if b = 0 then [(''compile'', 0), (''test'', 1)] else []) \<rparr>"

definition example_jobs :: "job_ref \<Rightarrow> job" where
  "example_jobs j = \<lparr> job_name_attr = ''job'', job_build = 0, job_completed = (j = 9) \<rparr>"

definition example_tasks :: "fut \<Rightarrow> task" where
  "example_tasks f = \<lparr> task_job = 0, task_status = Pending, cancel_requested = False \<rparr>"

definition example_queue :: "int \<Rightarrow> int \<Rightarrow> world" where
  "example_queue cap running = Queue_init example_builds example_jobs example_tasks cap running"

definition example_start :: "int \<Rightarrow> int \<Rightarrow> system" where
  "example_start cap running = start example_builds example_jobs example_tasks cap running"








section \<open>Predicates on runs of the system\<close>

text \<open>An event that hands the job \<open>j\<close> to the queue, on the heap of builds \<open>bs\<close>.\<close>

fun submits :: "(build_ref \<Rightarrow> build) \<Rightarrow> job_ref \<Rightarrow> event \<Rightarrow> bool" where
  "submits bs j (AddJob j') = (j' = j)"
| "submits bs j (AddBuild b) = (j \<in> snd ` set (build_jobs (bs b)))"
| "submits bs j _ = False"

text \<open>A job that the queue knows: it waits in the admission queue or is in the running map.\<close>

definition known :: "job_ref \<Rightarrow> world \<Rightarrow> bool" where
  "known j s = (j \<in> set (job_queue s) \<or> j \<in> fst ` set (jobs s))"

text \<open>
  The running map is a dictionary whose values are tasks that the loop has created
  for the job of their key and whose done callback has not yet run.
\<close>

definition running_ok :: "world \<Rightarrow> bool" where
  "running_ok s =
     (distinct (map fst (jobs s)) \<and>
      list_all (\<lambda>(j, f). f < next_task s \<and> task_job (tasks s f) = j \<and> \<not> is_settled (tasks s f))
        (jobs s))"

text \<open>
  The invariant of the scheduler: the running map is never larger than the cap; it is
  smaller than the cap whenever the loop is about to take a job; and while the loop
  waits for a slot, either every task it waits for is still in the running map or the
  map is already smaller than the cap.
\<close>

definition sched_inv :: "system \<Rightarrow> bool" where
  "sched_inv c =
     (running_ok (sys_world c) \<and>
      int (length (jobs (sys_world c))) \<le> max_running (sys_world c) \<and>
      (case sched c of
         LoopHead \<Rightarrow> int (length (jobs (sys_world c))) < max_running (sys_world c)
       | AwaitGet \<Rightarrow> int (length (jobs (sys_world c))) < max_running (sys_world c)
       | AwaitSlot fs \<Rightarrow>
           list_all (\<lambda>f. (task_job (tasks (sys_world c) f), f) \<in> set (jobs (sys_world c))) fs
           \<or> int (length (jobs (sys_world c))) < max_running (sys_world c)
       | Exited \<Rightarrow> True))"

section \<open>Properties of the job queue\<close>

subsection \<open>What the methods leave alone\<close>

lemma add_job_frame:
  "builds (add_job j s) = builds s" "pending_builds (add_job j s) = pending_builds s"
  "build_ids (add_job j s) = build_ids s" "jobs (add_job j s) = jobs s"
  "job_objs (add_job j s) = job_objs s" "tasks (add_job j s) = tasks s"
  "next_task (add_job j s) = next_task s" "cancelled (add_job j s) = cancelled s"
  "max_running (add_job j s) = max_running s" "max_jobs_queued (add_job j s) = max_jobs_queued s"
  by (simp_all add: add_job_def job_error_def)

lemma fold_add_job_frame:
  "builds (fold add_job js s) = builds s" "pending_builds (fold add_job js s) = pending_builds s"
  "build_ids (fold add_job js s) = build_ids s" "jobs (fold add_job js s) = jobs s"
  "job_objs (fold add_job js s) = job_objs s" "tasks (fold add_job js s) = tasks s"
  "next_task (fold add_job js s) = next_task s" "cancelled (fold add_job js s) = cancelled s"
  "max_running (fold add_job js s) = max_running s"
  "max_jobs_queued (fold add_job js s) = max_jobs_queued s"
  by (induction js arbitrary: s; simp add: add_job_frame)+

lemma enqueue_actions_frame:
  "builds (enqueue_actions b s) = builds s" "pending_builds (enqueue_actions b s) = pending_builds s"
  "build_ids (enqueue_actions b s) = build_ids s" "jobs (enqueue_actions b s) = jobs s"
  "job_objs (enqueue_actions b s) = job_objs s" "tasks (enqueue_actions b s) = tasks s"
  "next_task (enqueue_actions b s) = next_task s" "cancelled (enqueue_actions b s) = cancelled s"
  "max_running (enqueue_actions b s) = max_running s"
  "max_jobs_queued (enqueue_actions b s) = max_jobs_queued s"
  by (simp_all add: enqueue_actions_def fold_add_job_frame)

lemma add_build_frame:
  "builds (add_build b s) = builds s" "jobs (add_build b s) = jobs s"
  "job_objs (add_build b s) = job_objs s" "tasks (add_build b s) = tasks s"
  "next_task (add_build b s) = next_task s" "cancelled (add_build b s) = cancelled s"
  "max_running (add_build b s) = max_running s"
  "max_jobs_queued (add_build b s) = max_jobs_queued s"
  by (simp_all add: add_build_def Let_def logging_def enqueue_actions_frame)

lemma add_build_pending: "pending_builds (add_build b s) = insert b (pending_builds s)"
  by (auto simp add: add_build_def Let_def logging_def enqueue_actions_frame)

lemma add_build_build_ids:
  "b \<notin> pending_builds s \<Longrightarrow>
   build_ids (add_build b s) = (build_ids s)(commit_hash (builds s b) \<mapsto> b)"
  by (simp add: add_build_def Let_def logging_def enqueue_actions_frame)

lemma add_build_again:
  "b \<in> pending_builds s \<Longrightarrow>
   add_build b s =
     s\<lparr>trace := trace s @
          [Logged INFO (AddedBuild (commit_hash (builds s b)) (clone_url (builds s b)))]\<rparr>"
  by (simp add: add_build_def Let_def logging_def)

lemma remove_build_cases:
  "remove_build b s =
     (if build_ids s (commit_hash (builds s b)) = None then Raises KeyError s
      else if b \<notin> pending_builds s
      then Raises KeyError (s\<lparr>build_ids := (build_ids s)(commit_hash (builds s b) := None)\<rparr>)
      else Returns (s\<lparr>build_ids := (build_ids s)(commit_hash (builds s b) := None),
                      pending_builds := pending_builds s - {b}\<rparr>))"
  by (simp add: remove_build_def Let_def)

subsection \<open>Adding a build twice\<close>

text \<open>
  C6: \<^verbatim>\<open>add_build\<close> is idempotent by identity. Called with a build that is already in
  the pending set, it changes nothing but the log (one more line): the pending set, the
  map of commit hashes and the queue stay as they are, and the trace gets no call of
  the build's \<^verbatim>\<open>enqueue_actions\<close>. After any call the build is pending, so a second
  call with the same build is such a call: it adds the log line and nothing else, and
  the jobs of the build are queued once.
\<close>

theorem add_build_idempotent:
  "(b \<in> pending_builds s \<longrightarrow>
      add_build b s =
        s\<lparr>trace := trace s @
             [Logged INFO (AddedBuild (commit_hash (builds s b)) (clone_url (builds s b)))]\<rparr>) \<and>
   b \<in> pending_builds (add_build b s) \<and>
   add_build b (add_build b s) =
     (add_build b s)\<lparr>trace := trace (add_build b s) @
        [Logged INFO (AddedBuild (commit_hash (builds s b)) (clone_url (builds s b)))]\<rparr>"
  using add_build_again [of b "add_build b s"]
  by (simp add: add_build_again add_build_pending add_build_frame)

theorem add_build_idempotent_witness:
  "0 \<in> pending_builds (add_build 0 (example_queue 10 1)) \<and>
   job_queue (add_build 0 (example_queue 10 1)) = [0, 1] \<and>
   job_queue (add_build 0 (add_build 0 (example_queue 10 1))) = [0, 1] \<and>
   trace (add_build 0 (add_build 0 (example_queue 10 1))) =
     [Logged INFO (AddedBuild ''abc123'' ''git://demo''), EnqueueActionsCall 0,
      Logged INFO (AddedBuild ''abc123'' ''git://demo'')]"
  using add_build_idempotent [of 0 "add_build 0 (example_queue 10 1)"]
  by (simp add: add_build_def enqueue_actions_def add_job_def full_def logging_def
      example_queue_def Queue_init_def example_builds_def example_jobs_def Let_def)

subsection \<open>Removing a build\<close>

text \<open>
  C10: \<^verbatim>\<open>remove_build\<close> is not a silent no-op for a build that is not tracked. It raises
  \<^verbatim>\<open>KeyError\<close> when the commit hash of the build is not in the map of commit hashes
  (nothing has changed then), and when the hash is there but the build is not in the
  pending set (the entry of the hash is gone then). It returns only when both are
  there, and it has removed both then. So it raises on a fresh queue, and after
  \<^verbatim>\<open>add_build\<close> of a build that was not pending the first call returns and a second
  call raises.
\<close>

theorem remove_build_untracked_raises:
  "(build_ids s (commit_hash (builds s b)) = None \<longrightarrow> remove_build b s = Raises KeyError s) \<and>
   (build_ids s (commit_hash (builds s b)) \<noteq> None \<and> b \<notin> pending_builds s \<longrightarrow>
      remove_build b s =
        Raises KeyError (s\<lparr>build_ids := (build_ids s)(commit_hash (builds s b) := None)\<rparr>)) \<and>
   (build_ids s (commit_hash (builds s b)) \<noteq> None \<and> b \<in> pending_builds s \<longrightarrow>
      remove_build b s =
        Returns (s\<lparr>build_ids := (build_ids s)(commit_hash (builds s b) := None),
                   pending_builds := pending_builds s - {b}\<rparr>)) \<and>
   remove_build b (Queue_init bs js ts cap mr) = Raises KeyError (Queue_init bs js ts cap mr) \<and>
   (b \<notin> pending_builds s \<longrightarrow>
      (\<exists>s'. remove_build b (add_build b s) = Returns s' \<and>
            b \<notin> pending_builds s' \<and> build_ids s' (commit_hash (builds s b)) = None \<and>
            remove_build b s' = Raises KeyError s'))"
proof -
  have fresh: "remove_build b (Queue_init bs js ts cap mr) = Raises KeyError (Queue_init bs js ts cap mr)"
    by (simp add: remove_build_cases Queue_init_def)
  have twice: "\<exists>s'. remove_build b (add_build b s) = Returns s' \<and>
            b \<notin> pending_builds s' \<and> build_ids s' (commit_hash (builds s b)) = None \<and>
            remove_build b s' = Raises KeyError s'" if "b \<notin> pending_builds s"
    using that
    by (simp add: remove_build_cases add_build_frame add_build_pending add_build_build_ids)
  show ?thesis
    using fresh twice by (simp add: remove_build_cases)
qed

theorem remove_build_untracked_raises_witness:
  "build_ids (example_queue 10 1) (commit_hash (builds (example_queue 10 1) 0)) = None \<and>
   remove_build 0 (example_queue 10 1) = Raises KeyError (example_queue 10 1) \<and>
   0 \<notin> pending_builds (example_queue 10 1) \<and>
   (\<exists>s'. remove_build 0 (add_build 0 (example_queue 10 1)) = Returns s' \<and>
         remove_build 0 s' = Raises KeyError s')"
proof -
  have none: "build_ids (example_queue 10 1) (commit_hash (builds (example_queue 10 1) 0)) = None"
    by (simp add: example_queue_def Queue_init_def)
  have fresh: "0 \<notin> pending_builds (example_queue 10 1)"
    by (simp add: example_queue_def Queue_init_def)
  from remove_build_untracked_raises [of "example_queue 10 1" 0] none fresh
  show ?thesis by blast
qed

subsection \<open>Cancelling a job that is not running\<close>

text \<open>
  C9: for a job that is not a key of the running map (a job that waits in the queue, a
  job that has completed, any other job), \<^verbatim>\<open>cancel_job\<close> logs one error line and
  changes nothing else: the queue with the entry of the job, the running map, the flag
  \<open>cancelled\<close> and the tasks are as before, and the call returns (it cannot raise).
  The job can still start: when it stands first in the queue, the next admission of the
  scheduler puts it into the running map.
\<close>

theorem cancel_job_not_running:
  "j \<notin> fst ` set (jobs s) \<Longrightarrow>
     cancel_job j s = s\<lparr>trace := trace s @ [Logged ERROR (CancelUnknownJob j)]\<rparr> \<and>
     job_queue (cancel_job j s) = job_queue s \<and>
     jobs (cancel_job j s) = jobs s \<and>
     cancelled (cancel_job j s) = cancelled s \<and>
     tasks (cancel_job j s) = tasks s \<and>
     (\<forall>rest. job_queue s = j # rest \<longrightarrow>
        (\<exists>pc s'. admit (cancel_job j s) = Some (pc, s') \<and> j \<in> fst ` set (jobs s')))"
proof -
  assume "j \<notin> fst ` set (jobs s)"
  then have eq: "cancel_job j s = s\<lparr>trace := trace s @ [Logged ERROR (CancelUnknownJob j)]\<rparr>"
    by (simp add: cancel_job_def logging_def map_of_eq_None_iff [symmetric])
  have "\<exists>pc s'. admit (cancel_job j s) = Some (pc, s') \<and> j \<in> fst ` set (jobs s')"
    if "job_queue s = j # rest" for rest
    using that
    by (simp add: eq admit_def create_task_def logging_def Let_def AList.dom_update)
  then show ?thesis by (simp add: eq)
qed

theorem cancel_job_not_running_witness:
  "0 \<notin> fst ` set (jobs (add_job 0 (example_queue 10 1))) \<and>
   job_queue (add_job 0 (example_queue 10 1)) = [0] \<and>
   job_queue (cancel_job 0 (add_job 0 (example_queue 10 1))) = [0] \<and>
   trace (cancel_job 0 (add_job 0 (example_queue 10 1))) = [Logged ERROR (CancelUnknownJob 0)] \<and>
   (\<exists>pc s'. admit (cancel_job 0 (add_job 0 (example_queue 10 1))) = Some (pc, s') \<and>
            0 \<in> fst ` set (jobs s'))"
proof -
  have a: "0 \<notin> fst ` set (jobs (add_job 0 (example_queue 10 1)))"
    by (simp add: add_job_frame example_queue_def Queue_init_def)
  have q: "job_queue (add_job 0 (example_queue 10 1)) = [0]"
    by (simp add: add_job_def full_def example_queue_def Queue_init_def example_jobs_def)
  have t: "trace (add_job 0 (example_queue 10 1)) = []"
    by (simp add: add_job_def full_def example_queue_def Queue_init_def example_jobs_def)
  note th = cancel_job_not_running [OF a]
  have 1: "job_queue (cancel_job 0 (add_job 0 (example_queue 10 1))) = [0]"
    using th q by simp
  have 2: "trace (cancel_job 0 (add_job 0 (example_queue 10 1))) = [Logged ERROR (CancelUnknownJob 0)]"
    using th t by simp
  have 3: "\<exists>pc s'. admit (cancel_job 0 (add_job 0 (example_queue 10 1))) = Some (pc, s') \<and>
            0 \<in> fst ` set (jobs s')"
    using th q by blast
  show ?thesis using a q 1 2 3 by blast
qed

section \<open>Properties of the web socket handler\<close>






section \<open>Properties of the plain stream handler\<close>

subsection \<open>The loop on the queue\<close>








subsection \<open>The order of what a subscriber sees\<close>



subsection \<open>What the loop writes\<close>




subsection \<open>Requests that name no job to watch\<close>











section \<open>Properties of the scheduler\<close>

subsection \<open>Dictionaries as association lists\<close>

lemma length_update_le: "length (AList.update k v al) \<le> Suc (length al)"
  by (induction al) auto

lemma set_update_subset: "set (AList.update k v al) \<subseteq> insert (k, v) (set al)"
  by (induction al) auto

lemma length_delete_less: "k \<in> fst ` set al \<Longrightarrow> length (AList.delete k al) < length al"
proof (induction al)
  case Nil
  then show ?case by simp
next
  case (Cons p al)
  have "length (AList.delete k al) \<le> length al"
    by (rule AList.length_delete_le)
  with Cons show ?case
    by (cases "fst p = k") auto
qed

lemma set_delete_subset: "set (AList.delete k al) \<subseteq> set al"
  by (auto simp add: AList.delete_eq)

lemma delete_key_gone: "(k, v) \<notin> set (AList.delete k al)"
  by (auto simp add: AList.delete_eq)

subsection \<open>Runs\<close>

lemma run_Nil: "run [] c = c"
  by (simp add: run_def)


lemma run_Cons: "run (e # es) c = run es (exec e c)"
  by (simp add: run_def)

subsection \<open>What the steps leave alone\<close>

lemma job_done_frame:
  "builds (job_done j s) = builds s" "job_queue (job_done j s) = job_queue s"
  "tasks (job_done j s) = tasks s" "next_task (job_done j s) = next_task s"
  "max_running (job_done j s) = max_running s" "cancelled (job_done j s) = cancelled s"
  "jobs (job_done j s) = AList.delete j (jobs s)"
  by (simp_all add: job_done_def logging_def Let_def)

lemma task_cancel_frame:
  "builds (task_cancel f s) = builds s" "job_queue (task_cancel f s) = job_queue s"
  "jobs (task_cancel f s) = jobs s" "next_task (task_cancel f s) = next_task s"
  "max_running (task_cancel f s) = max_running s" "cancelled (task_cancel f s) = cancelled s"
  "task_job (tasks (task_cancel f s) g) = task_job (tasks s g)"
  "task_status (tasks (task_cancel f s) g) = task_status (tasks s g)"
  by (simp_all add: task_cancel_def Let_def)

lemma fold_task_cancel_frame:
  "builds (fold task_cancel fs s) = builds s" "job_queue (fold task_cancel fs s) = job_queue s"
  "jobs (fold task_cancel fs s) = jobs s" "next_task (fold task_cancel fs s) = next_task s"
  "max_running (fold task_cancel fs s) = max_running s"
  "cancelled (fold task_cancel fs s) = cancelled s"
  "task_job (tasks (fold task_cancel fs s) g) = task_job (tasks s g)"
  "task_status (tasks (fold task_cancel fs s) g) = task_status (tasks s g)"
  by (induction fs arbitrary: s; simp add: task_cancel_frame)+

lemma cancel_job_frame:
  "builds (cancel_job j s) = builds s" "job_queue (cancel_job j s) = job_queue s"
  "jobs (cancel_job j s) = jobs s" "next_task (cancel_job j s) = next_task s"
  "max_running (cancel_job j s) = max_running s" "cancelled (cancel_job j s) = cancelled s"
  "task_job (tasks (cancel_job j s) g) = task_job (tasks s g)"
  "task_status (tasks (cancel_job j s) g) = task_status (tasks s g)"
  by (simp_all add: cancel_job_def logging_def task_cancel_frame split: option.splits)

lemma abort_build_frame:
  "builds (abort_build h s) = builds s" "job_queue (abort_build h s) = job_queue s"
  "jobs (abort_build h s) = jobs s" "next_task (abort_build h s) = next_task s"
  "max_running (abort_build h s) = max_running s" "tasks (abort_build h s) = tasks s"
  by (simp_all add: abort_build_def build_abort_def split: option.splits)

lemma remove_build_frame:
  "builds (outcome_state (remove_build b s)) = builds s"
  "job_queue (outcome_state (remove_build b s)) = job_queue s"
  "jobs (outcome_state (remove_build b s)) = jobs s"
  "next_task (outcome_state (remove_build b s)) = next_task s"
  "max_running (outcome_state (remove_build b s)) = max_running s"
  "tasks (outcome_state (remove_build b s)) = tasks s"
  by (simp_all add: remove_build_cases outcome_state_def)

lemma job_completes_frame:
  "builds (job_completes j s) = builds s" "job_queue (job_completes j s) = job_queue s"
  "jobs (job_completes j s) = jobs s" "next_task (job_completes j s) = next_task s"
  "max_running (job_completes j s) = max_running s" "tasks (job_completes j s) = tasks s"
  by (simp_all add: job_completes_def)

lemma task_ends_frame:
  "builds (task_ends f r s) = builds s" "job_queue (task_ends f r s) = job_queue s"
  "jobs (task_ends f r s) = jobs s" "next_task (task_ends f r s) = next_task s"
  "max_running (task_ends f r s) = max_running s"
  "task_job (tasks (task_ends f r s) g) = task_job (tasks s g)"
  "is_settled (tasks (task_ends f r s) g) = is_settled (tasks s g)"
  by (simp_all add: task_ends_def is_settled_def)

lemma cancel_begin_frame:
  "builds (snd (cancel_begin s)) = builds s" "job_queue (snd (cancel_begin s)) = job_queue s"
  "jobs (snd (cancel_begin s)) = jobs s" "next_task (snd (cancel_begin s)) = next_task s"
  "max_running (snd (cancel_begin s)) = max_running s"
  "task_job (tasks (snd (cancel_begin s)) g) = task_job (tasks s g)"
  "task_status (tasks (snd (cancel_begin s)) g) = task_status (tasks s g)"
  by (simp_all add: cancel_begin_def Let_def logging_def fold_task_cancel_frame)

lemma cancel_resume_frame:
  "cancel_resume fs n s = Some s' \<Longrightarrow>
     builds s' = builds s \<and> job_queue s' = job_queue s \<and> jobs s' = jobs s \<and>
     next_task s' = next_task s \<and> max_running s' = max_running s \<and> tasks s' = tasks s"
  by (auto simp add: cancel_resume_def logging_def Let_def split: option.splits)

lemma resume_first_frame:
  "builds (snd (resume_first ws s)) = builds s \<and>
   job_queue (snd (resume_first ws s)) = job_queue s \<and>
   jobs (snd (resume_first ws s)) = jobs s \<and>
   next_task (snd (resume_first ws s)) = next_task s \<and>
   max_running (snd (resume_first ws s)) = max_running s \<and>
   tasks (snd (resume_first ws s)) = tasks s"
proof (induction ws s rule: resume_first.induct)
  case (1 s)
  then show ?case by simp
next
  case (2 fs n ws s)
  show ?case
  proof (cases "cancel_resume fs n s")
    case None
    with 2 show ?thesis by (simp add: case_prod_unfold Let_def)
  next
    case (Some s')
    with cancel_resume_frame [OF Some] show ?thesis by simp
  qed
qed

subsection \<open>The invariant of the scheduler\<close>

lemma sched_inv_same:
  assumes "sched_inv c"
    and "sched c' = sched c"
    and "jobs (sys_world c') = jobs (sys_world c)"
    and "next_task (sys_world c') = next_task (sys_world c)"
    and "max_running (sys_world c') = max_running (sys_world c)"
    and "\<And>g. task_job (tasks (sys_world c') g) = task_job (tasks (sys_world c) g)"
    and "\<And>g. is_settled (tasks (sys_world c') g) = is_settled (tasks (sys_world c) g)"
  shows "sched_inv c'"
proof -
  have ok: "running_ok (sys_world c') = running_ok (sys_world c)"
    by (simp add: running_ok_def assms)
  show ?thesis
    using assms(1) by (cases "sched c") (simp_all add: sched_inv_def ok assms)
qed

lemma is_settled_status:
  "task_status t' = task_status t \<Longrightarrow> is_settled t' = is_settled t"
  by (simp add: is_settled_def)

lemma running_ok_entry:
  "running_ok s \<Longrightarrow> (j, f) \<in> set (jobs s) \<Longrightarrow>
     f < next_task s \<and> task_job (tasks s f) = j \<and> \<not> is_settled (tasks s f)"
  by (auto simp add: running_ok_def list_all_iff)

lemma running_okI:
  assumes "distinct (map fst (jobs s))"
    and "\<And>j f. (j, f) \<in> set (jobs s) \<Longrightarrow>
           f < next_task s \<and> task_job (tasks s f) = j \<and> \<not> is_settled (tasks s f)"
  shows "running_ok s"
  using assms by (auto simp add: running_ok_def list_all_iff)

lemma done_callback_Finished:
  "task_status (tasks s f) = Finished r \<Longrightarrow>
   jobs (done_callback f s) = AList.delete (task_job (tasks s f)) (jobs s) \<and>
   tasks (done_callback f s) = (tasks s)(f := (tasks s f)\<lparr>task_status := Settled r\<rparr>) \<and>
   next_task (done_callback f s) = next_task s \<and>
   max_running (done_callback f s) = max_running s \<and>
   job_queue (done_callback f s) = job_queue s \<and>
   builds (done_callback f s) = builds s"
  by (simp add: done_callback_def job_done_frame)

lemma done_callback_other:
  "\<forall>r. task_status (tasks s f) \<noteq> Finished r \<Longrightarrow> done_callback f s = s"
  by (cases "task_status (tasks s f)") (simp_all add: done_callback_def)

lemma running_ok_done_callback:
  assumes ok: "running_ok s" and fin: "task_status (tasks s f) = Finished r"
  shows "running_ok (done_callback f s)"
proof (rule running_okI)
  note dc = done_callback_Finished [OF fin]
  show "distinct (map fst (jobs (done_callback f s)))"
    using ok by (simp add: dc running_ok_def AList.distinct_delete)
  fix j g
  assume "(j, g) \<in> set (jobs (done_callback f s))"
  then have del: "(j, g) \<in> set (AList.delete (task_job (tasks s f)) (jobs s))"
    by (simp add: dc)
  then have mem: "(j, g) \<in> set (jobs s)"
    using set_delete_subset by fastforce
  from del have "j \<noteq> task_job (tasks s f)"
    using delete_key_gone by fastforce
  with running_ok_entry [OF ok mem] have "g \<noteq> f" by auto
  with running_ok_entry [OF ok mem]
  show "g < next_task (done_callback f s) \<and> task_job (tasks (done_callback f s) g) = j \<and>
        \<not> is_settled (tasks (done_callback f s) g)"
    by (simp add: dc)
qed

lemma sched_inv_done_callback:
  assumes inv: "sched_inv c"
  shows "sched_inv (c\<lparr>sys_world := done_callback f (sys_world c)\<rparr>)"
proof (cases "\<exists>r. task_status (tasks (sys_world c) f) = Finished r")
  case False
  then have "done_callback f (sys_world c) = sys_world c"
    by (simp add: done_callback_other)
  with inv show ?thesis by simp
next
  case True
  then obtain r where fin: "task_status (tasks (sys_world c) f) = Finished r" ..
  note dc = done_callback_Finished [OF fin]
  from inv have ok: "running_ok (sys_world c)"
    and le: "int (length (jobs (sys_world c))) \<le> max_running (sys_world c)"
    by (simp_all add: sched_inv_def)
  have ok': "running_ok (done_callback f (sys_world c))"
    by (rule running_ok_done_callback [OF ok fin])
  show ?thesis
  proof (cases "task_job (tasks (sys_world c) f) \<in> fst ` set (jobs (sys_world c))")
    case True
    then have "length (jobs (done_callback f (sys_world c))) < length (jobs (sys_world c))"
      by (simp add: dc length_delete_less)
    with le have lt: "int (length (jobs (done_callback f (sys_world c)))) <
        max_running (done_callback f (sys_world c))"
      by (simp add: dc)
    show ?thesis
      using ok' lt by (cases "sched c") (simp_all add: sched_inv_def)
  next
    case False
    then have same: "jobs (done_callback f (sys_world c)) = jobs (sys_world c)"
      by (simp add: dc)
    have mr: "max_running (done_callback f (sys_world c)) = max_running (sys_world c)"
      by (simp add: dc)
    have tj: "task_job (tasks (done_callback f (sys_world c)) g) = task_job (tasks (sys_world c) g)"
      for g by (simp add: dc)
    show ?thesis
      using inv ok' by (cases "sched c") (simp_all add: sched_inv_def same mr tj)
  qed
qed

text \<open>The world after the admission of the job \<open>j\<close>, before the log line of the limit.\<close>

lemma admit_Some:
  assumes "job_queue s = j # rest"
  shows "\<exists>s'. admit s =
      Some (if max_running s \<le> int (length (jobs s')) \<or> cancelled s
            then (AwaitSlot (map snd (jobs s')),
                  logging WARNING (RunlimitReached (max_running s)) s')
            else (LoopHead, s')) \<and>
    jobs s' = AList.update j (next_task s) (jobs s) \<and>
    tasks s' = (tasks s)(next_task s :=
        \<lparr>task_job = j, task_status = Pending, cancel_requested = False\<rparr>) \<and>
    next_task s' = Suc (next_task s) \<and> max_running s' = max_running s \<and>
    job_queue s' = rest \<and> builds s' = builds s \<and> cancelled s' = cancelled s"
  using assms
  by (intro exI [of _ "s\<lparr>job_queue := rest,
          trace := trace s @ [Logged INFO (ProcessingJob j)],
          tasks := (tasks s)(next_task s :=
            \<lparr>task_job = j, task_status = Pending, cancel_requested = False\<rparr>),
          next_task := Suc (next_task s),
          jobs := AList.update j (next_task s) (jobs s)\<rparr>"])
     (simp add: admit_def create_task_def logging_def Let_def)

lemma logging_frame:
  "jobs (logging l m s) = jobs s" "tasks (logging l m s) = tasks s"
  "next_task (logging l m s) = next_task s" "max_running (logging l m s) = max_running s"
  "job_queue (logging l m s) = job_queue s" "builds (logging l m s) = builds s"
  "cancelled (logging l m s) = cancelled s"
  by (simp_all add: logging_def)

lemma running_ok_logging: "running_ok (logging l m s) = running_ok s"
  by (simp add: running_ok_def logging_frame)

lemma running_ok_admit:
  assumes ok: "running_ok s"
    and j: "jobs s' = AList.update j (next_task s) (jobs s)"
    and t: "tasks s' = (tasks s)(next_task s :=
        \<lparr>task_job = j, task_status = Pending, cancel_requested = False\<rparr>)"
    and n: "next_task s' = Suc (next_task s)"
  shows "running_ok s'"
proof (rule running_okI)
  show "distinct (map fst (jobs s'))"
    using ok by (simp add: j running_ok_def AList.distinct_update)
  fix j' g
  assume "(j', g) \<in> set (jobs s')"
  then have mem: "(j', g) = (j, next_task s) \<or> (j', g) \<in> set (jobs s)"
    using set_update_subset [of j "next_task s" "jobs s"] by (auto simp add: j)
  show "g < next_task s' \<and> task_job (tasks s' g) = j' \<and> \<not> is_settled (tasks s' g)"
  proof (cases "(j', g) = (j, next_task s)")
    case True
    then show ?thesis by (simp add: t n is_settled_def)
  next
    case False
    with mem have "(j', g) \<in> set (jobs s)" by auto
    from running_ok_entry [OF ok this] show ?thesis by (simp add: t n)
  qed
qed

lemma sched_inv_sched_step:
  assumes inv: "sched_inv c"
  shows "sched_inv (sched_step c)"
proof (cases "sched c")
  case LoopHead
  with inv show ?thesis
    by (simp add: sched_step_def loop_head_def sched_inv_def running_ok_logging logging_frame)
next
  case AwaitGet
  show ?thesis
  proof (cases "job_queue (sys_world c)")
    case Nil
    then have "sched_step c = c"
      using AwaitGet by (simp add: sched_step_def admit_def)
    with inv show ?thesis by simp
  next
    case (Cons j rest)
    from admit_Some [OF Cons] obtain s' where
      adm: "admit (sys_world c) =
        Some (if max_running (sys_world c) \<le> int (length (jobs s')) \<or> cancelled (sys_world c)
              then (AwaitSlot (map snd (jobs s')),
                    logging WARNING (RunlimitReached (max_running (sys_world c))) s')
              else (LoopHead, s'))"
      and j: "jobs s' = AList.update j (next_task (sys_world c)) (jobs (sys_world c))"
      and t: "tasks s' = (tasks (sys_world c))(next_task (sys_world c) :=
          \<lparr>task_job = j, task_status = Pending, cancel_requested = False\<rparr>)"
      and n: "next_task s' = Suc (next_task (sys_world c))"
      and m: "max_running s' = max_running (sys_world c)"
      by blast
    from inv AwaitGet have ok: "running_ok (sys_world c)"
      and lt: "int (length (jobs (sys_world c))) < max_running (sys_world c)"
      by (simp_all add: sched_inv_def)
    have ok': "running_ok s'"
      by (rule running_ok_admit [OF ok j t n])
    have len: "int (length (jobs s')) \<le> max_running s'"
      using lt length_update_le [of j "next_task (sys_world c)" "jobs (sys_world c)"]
      by (simp add: j m)
    have slot: "list_all (\<lambda>f. (task_job (tasks s' f), f) \<in> set (jobs s')) (map snd (jobs s'))"
      using running_ok_entry [OF ok'] by (auto simp add: list_all_iff)
    show ?thesis
    proof (cases "max_running (sys_world c) \<le> int (length (jobs s')) \<or> cancelled (sys_world c)")
      case True
      then have "sched_step c =
          c\<lparr>sys_world := logging WARNING (RunlimitReached (max_running (sys_world c))) s',
            sched := AwaitSlot (map snd (jobs s'))\<rparr>"
        using AwaitGet by (simp add: sched_step_def adm)
      then show ?thesis
        using ok' len slot by (simp add: sched_inv_def running_ok_logging logging_frame)
    next
      case False
      then have "sched_step c = c\<lparr>sys_world := s', sched := LoopHead\<rparr>"
        using AwaitGet by (simp add: sched_step_def adm)
      then show ?thesis
        using ok' len False by (simp add: sched_inv_def m)
    qed
  qed
next
  case (AwaitSlot fs)
  show ?thesis
  proof (cases "first_completed fs (sys_world c)")
    case False
    with AwaitSlot have "sched_step c = c"
      by (simp add: sched_step_def)
    with inv show ?thesis by simp
  next
    case True
    then obtain g where g: "g \<in> set fs" "is_settled (tasks (sys_world c) g)"
      by (auto simp add: first_completed_def list_ex_iff)
    from inv have ok: "running_ok (sys_world c)"
      by (simp add: sched_inv_def)
    have "\<not> list_all (\<lambda>f. (task_job (tasks (sys_world c) f), f) \<in> set (jobs (sys_world c))) fs"
      using g running_ok_entry [OF ok] by (auto simp add: list_all_iff)
    with inv AwaitSlot have "int (length (jobs (sys_world c))) < max_running (sys_world c)"
      by (simp add: sched_inv_def)
    with inv AwaitSlot True show ?thesis
      by (simp add: sched_step_def sched_inv_def)
  qed
next
  case Exited
  with inv show ?thesis by (simp add: sched_step_def)
qed

lemma exec_simps:
  "exec Sched c = sched_step c"
  "exec (TaskEnds f r) c = c\<lparr>sys_world := task_ends f r (sys_world c)\<rparr>"
  "exec (DoneCallback f) c = c\<lparr>sys_world := done_callback f (sys_world c)\<rparr>"
  "exec (JobCompletes j) c = c\<lparr>sys_world := job_completes j (sys_world c)\<rparr>"
  "exec (AddJob j) c = c\<lparr>sys_world := add_job j (sys_world c)\<rparr>"
  "exec (AddBuild b) c = c\<lparr>sys_world := add_build b (sys_world c)\<rparr>"
  "exec (RemoveBuild b) c = c\<lparr>sys_world := outcome_state (remove_build b (sys_world c))\<rparr>"
  "exec (AbortBuild h) c = c\<lparr>sys_world := abort_build h (sys_world c)\<rparr>"
  "exec (CancelJob j) c = c\<lparr>sys_world := cancel_job j (sys_world c)\<rparr>"
  by (simp_all add: exec_def)

lemma exec_Cancel:
  "sys_world (exec Cancel c) = snd (cancel_begin (sys_world c)) \<and> sched (exec Cancel c) = sched c"
proof -
  obtain pc s where cb: "cancel_begin (sys_world c) = (pc, s)"
    by (cases "cancel_begin (sys_world c)")
  show ?thesis
    by (cases pc) (simp_all add: exec_def cb)
qed

lemma exec_CancelResumes:
  "sys_world (exec CancelResumes c) = snd (resume_first (cancel_waits c) (sys_world c)) \<and>
   sched (exec CancelResumes c) = sched c"
proof -
  obtain ws s where rf: "resume_first (cancel_waits c) (sys_world c) = (ws, s)"
    by (cases "resume_first (cancel_waits c) (sys_world c)")
  show ?thesis
    by (simp add: exec_def rf)
qed

lemma sched_inv_world:
  assumes inv: "sched_inv c"
    and "jobs s' = jobs (sys_world c)"
    and "next_task s' = next_task (sys_world c)"
    and "max_running s' = max_running (sys_world c)"
    and "\<And>g. task_job (tasks s' g) = task_job (tasks (sys_world c) g)"
    and "\<And>g. is_settled (tasks s' g) = is_settled (tasks (sys_world c) g)"
  shows "sched_inv (c\<lparr>sys_world := s'\<rparr>)"
  by (rule sched_inv_same [OF inv]) (simp_all add: assms)

lemma settled_frame:
  "is_settled (tasks (cancel_job j s) g) = is_settled (tasks s g)"
  "is_settled (tasks (snd (cancel_begin s)) g) = is_settled (tasks s g)"
  by (simp_all add: is_settled_def cancel_job_frame cancel_begin_frame)

lemma sched_inv_exec:
  assumes inv: "sched_inv c"
  shows "sched_inv (exec e c)"
proof (cases e)
  case Sched
  with sched_inv_sched_step [OF inv] show ?thesis by (simp add: exec_simps)
next
  case (TaskEnds f r)
  have "sched_inv (c\<lparr>sys_world := task_ends f r (sys_world c)\<rparr>)"
    by (rule sched_inv_world [OF inv]) (simp_all add: task_ends_frame)
  with TaskEnds show ?thesis by (simp add: exec_simps)
next
  case (DoneCallback f)
  with sched_inv_done_callback [OF inv] show ?thesis by (simp add: exec_simps)
next
  case (JobCompletes j)
  have "sched_inv (c\<lparr>sys_world := job_completes j (sys_world c)\<rparr>)"
    by (rule sched_inv_world [OF inv]) (simp_all add: job_completes_frame)
  with JobCompletes show ?thesis by (simp add: exec_simps)
next
  case (AddJob j)
  have "sched_inv (c\<lparr>sys_world := add_job j (sys_world c)\<rparr>)"
    by (rule sched_inv_world [OF inv]) (simp_all add: add_job_frame)
  with AddJob show ?thesis by (simp add: exec_simps)
next
  case (AddBuild b)
  have "sched_inv (c\<lparr>sys_world := add_build b (sys_world c)\<rparr>)"
    by (rule sched_inv_world [OF inv]) (simp_all add: add_build_frame)
  with AddBuild show ?thesis by (simp add: exec_simps)
next
  case (RemoveBuild b)
  have "sched_inv (c\<lparr>sys_world := outcome_state (remove_build b (sys_world c))\<rparr>)"
    by (rule sched_inv_world [OF inv]) (simp_all add: remove_build_frame)
  with RemoveBuild show ?thesis by (simp add: exec_simps)
next
  case (AbortBuild h)
  have "sched_inv (c\<lparr>sys_world := abort_build h (sys_world c)\<rparr>)"
    by (rule sched_inv_world [OF inv]) (simp_all add: abort_build_frame)
  with AbortBuild show ?thesis by (simp add: exec_simps)
next
  case (CancelJob j)
  have "sched_inv (c\<lparr>sys_world := cancel_job j (sys_world c)\<rparr>)"
    by (rule sched_inv_world [OF inv])
       (simp_all add: cancel_job_frame settled_frame)
  with CancelJob show ?thesis by (simp add: exec_simps)
next
  case Cancel
  have "sched_inv (exec Cancel c)"
    by (rule sched_inv_same [OF inv])
       (simp_all add: exec_Cancel cancel_begin_frame settled_frame)
  with Cancel show ?thesis by simp
next
  case CancelResumes
  have "sched_inv (exec CancelResumes c)"
    by (rule sched_inv_same [OF inv]) (simp_all add: exec_CancelResumes resume_first_frame)
  with CancelResumes show ?thesis by simp
qed

lemma sched_inv_run: "sched_inv c \<Longrightarrow> sched_inv (run es c)"
  by (induction es arbitrary: c) (simp_all add: run_Nil run_Cons sched_inv_exec)

lemma sched_inv_start: "1 \<le> mr \<Longrightarrow> sched_inv (start bs js ts cap mr)"
  by (simp add: sched_inv_def start_def Queue_init_def running_ok_def)

lemma max_running_exec: "max_running (sys_world (exec e c)) = max_running (sys_world c)"
proof (cases e)
  case Sched
  show ?thesis
  proof (cases "sched c")
    case LoopHead
    then show ?thesis using Sched
      by (simp add: exec_simps sched_step_def loop_head_def logging_frame)
  next
    case AwaitGet
    show ?thesis
    proof (cases "job_queue (sys_world c)")
      case Nil
      then show ?thesis using Sched AwaitGet
        by (simp add: exec_simps sched_step_def admit_def)
    next
      case (Cons j rest)
      from admit_Some [OF Cons] show ?thesis using Sched AwaitGet
        by (auto simp add: exec_simps sched_step_def logging_frame)
    qed
  next
    case (AwaitSlot fs)
    then show ?thesis using Sched by (simp add: exec_simps sched_step_def)
  next
    case Exited
    then show ?thesis using Sched by (simp add: exec_simps sched_step_def)
  qed
next
  case (DoneCallback f)
  show ?thesis
  proof (cases "\<exists>r. task_status (tasks (sys_world c) f) = Finished r")
    case True
    then show ?thesis using DoneCallback
      by (auto simp add: exec_simps done_callback_Finished)
  next
    case False
    then show ?thesis using DoneCallback
      by (simp add: exec_simps done_callback_other)
  qed
qed (simp_all add: exec_simps exec_Cancel exec_CancelResumes task_ends_frame job_completes_frame
      add_job_frame add_build_frame remove_build_frame abort_build_frame cancel_job_frame
      cancel_begin_frame resume_first_frame)

lemma max_running_run: "max_running (sys_world (run es c)) = max_running (sys_world c)"
  by (induction es arbitrary: c) (simp_all add: run_Nil run_Cons max_running_exec)

lemma running_bound:
  "1 \<le> mr \<Longrightarrow> int (length (jobs (sys_world (run es (start bs js ts cap mr))))) \<le> mr"
proof -
  assume "1 \<le> mr"
  then have "sched_inv (run es (start bs js ts cap mr))"
    by (simp add: sched_inv_run sched_inv_start)
  then have "int (length (jobs (sys_world (run es (start bs js ts cap mr))))) \<le>
      max_running (sys_world (run es (start bs js ts cap mr)))"
    by (simp add: sched_inv_def)
  then show ?thesis
    by (simp add: max_running_run start_def Queue_init_def)
qed

lemma admit_waits:
  "admit s = Some (pc, s') \<Longrightarrow> max_running s' \<le> int (length (jobs s')) \<Longrightarrow>
     pc = AwaitSlot (map snd (jobs s'))"
proof (cases "job_queue s")
  case Nil
  assume "admit s = Some (pc, s')"
  with Nil show ?thesis by (simp add: admit_def)
next
  case (Cons j rest)
  assume a: "admit s = Some (pc, s')" and m: "max_running s' \<le> int (length (jobs s'))"
  from admit_Some [OF Cons] a m show ?thesis
    by (auto simp add: logging_frame split: if_splits)
qed

lemma wait_blocks:
  "sched c = AwaitSlot fs \<Longrightarrow> \<not> first_completed fs (sys_world c) \<Longrightarrow> exec Sched c = c"
  by (simp add: exec_simps sched_step_def)

lemmas eval_defs = run_def exec_def example_start_def start_def Queue_init_def add_job_def full_def
  example_jobs_def sched_step_def loop_head_def admit_def create_task_def logging_def Let_def
  first_completed_def is_settled_def task_ends_def done_callback_def job_done_def job_error_def
  example_queue_def

subsection \<open>The cap on the running map\<close>

text \<open>
  C1, as the code has it: with a cap \<open>max_running\<close> of at least one, the running map
  never holds more than \<open>max_running\<close> jobs, in any state that the system reaches
  from its start by any sequence of events. When an admission brings the size of the
  map up to the cap, the loop goes to wait for the tasks that are in the map, and while
  none of the tasks it waits for has settled a step of the scheduler changes nothing: no
  other job is taken from the queue.
\<close>

theorem running_map_bounded:
  "(1 \<le> mr \<longrightarrow> int (length (jobs (sys_world (run es (start bs js ts cap mr))))) \<le> mr) \<and>
   max_running (sys_world (run es (start bs js ts cap mr))) = mr \<and>
   (admit s = Some (pc, s') \<and> max_running s' \<le> int (length (jobs s')) \<longrightarrow>
      pc = AwaitSlot (map snd (jobs s'))) \<and>
   (sched c = AwaitSlot fs \<and> \<not> first_completed fs (sys_world c) \<longrightarrow> exec Sched c = c) \<and>
   first_completed fs w = (\<exists>f. f \<in> set fs \<and> is_settled (tasks w f))"
proof -
  have 1: "max_running (sys_world (run es (start bs js ts cap mr))) = mr"
    by (simp add: max_running_run start_def Queue_init_def)
  have 2: "first_completed fs w = (\<exists>f. f \<in> set fs \<and> is_settled (tasks w f))"
    by (auto simp add: first_completed_def list_ex_iff)
  from 1 2 running_bound [of mr es bs js ts cap] admit_waits [of s pc s'] wait_blocks [of c fs]
  show ?thesis by blast
qed

text \<open>
  With the cap 1 and two jobs in the queue, the loop admits job 0, waits, and leaves
  job 1 in the queue.
\<close>

theorem running_map_bounded_witness:
  "(1::int) \<le> 1 \<and>
   int (length (jobs (sys_world (run [AddJob 0, AddJob 1, Sched, Sched] (example_start 10 1))))) \<le> 1 \<and>
   jobs (sys_world (run [AddJob 0, AddJob 1, Sched, Sched] (example_start 10 1))) = [(0, 0)] \<and>
   sched (run [AddJob 0, AddJob 1, Sched, Sched] (example_start 10 1)) = AwaitSlot [0] \<and>
   \<not> first_completed [0] (sys_world (run [AddJob 0, AddJob 1, Sched, Sched] (example_start 10 1))) \<and>
   exec Sched (run [AddJob 0, AddJob 1, Sched, Sched] (example_start 10 1)) =
     run [AddJob 0, AddJob 1, Sched, Sched] (example_start 10 1) \<and>
   job_queue (sys_world (run [AddJob 0, AddJob 1, Sched, Sched] (example_start 10 1))) = [1]"
proof -
  let ?c = "run [AddJob 0, AddJob 1, Sched, Sched] (example_start 10 1)"
  have j: "jobs (sys_world ?c) = [(0, 0)]"
    by (simp add: eval_defs)
  have p: "sched ?c = AwaitSlot [0]"
    by (simp add: eval_defs)
  have f: "\<not> first_completed [0] (sys_world ?c)"
    by (simp add: eval_defs example_tasks_def)
  have q: "job_queue (sys_world ?c) = [1]"
    by (simp add: eval_defs)
  note th = running_map_bounded [where mr = 1 and es = "[AddJob 0, AddJob 1, Sched, Sched]"
      and bs = example_builds and js = example_jobs and ts = example_tasks and cap = 10
      and c = ?c and fs = "[0]"]
  have b: "int (length (jobs (sys_world ?c))) \<le> 1"
    using th by (simp add: example_start_def)
  have e: "exec Sched ?c = ?c"
    using th p f by blast
  show ?thesis using j p f q b e by simp
qed

text \<open>
  The claim as it was stated holds for every cap. With the cap 0 the first admission
  puts a job into the running map, which then holds more jobs than the cap.
\<close>

theorem cap_zero_counterexample:
  "max_running (sys_world (run [AddJob 0, Sched, Sched] (example_start 10 0))) = 0 \<and>
   jobs (sys_world (run [AddJob 0, Sched, Sched] (example_start 10 0))) = [(0, 0)] \<and>
   \<not> int (length (jobs (sys_world (run [AddJob 0, Sched, Sched] (example_start 10 0))))) \<le>
       max_running (sys_world (run [AddJob 0, Sched, Sched] (example_start 10 0)))"
  by (simp add: eval_defs)

subsection \<open>Where the running jobs come from\<close>

lemma add_job_queue: "set (job_queue (add_job j s)) \<subseteq> insert j (set (job_queue s))"
  by (auto simp add: add_job_def job_error_def)

lemma fold_add_job_queue:
  "set (job_queue (fold add_job js s)) \<subseteq> set js \<union> set (job_queue s)"
proof (induction js arbitrary: s)
  case Nil
  then show ?case by simp
next
  case (Cons j js)
  from Cons [of "add_job j s"] add_job_queue [of j s] show ?case by auto
qed

lemma enqueue_actions_queue:
  "set (job_queue (enqueue_actions b s)) \<subseteq> snd ` set (build_jobs (builds s b)) \<union> set (job_queue s)"
  using fold_add_job_queue [of "map snd (build_jobs (builds s b))"
      "s\<lparr>trace := trace s @ [EnqueueActionsCall b]\<rparr>"]
  by (simp add: enqueue_actions_def)

lemma add_build_queue:
  "set (job_queue (add_build b s)) \<subseteq> snd ` set (build_jobs (builds s b)) \<union> set (job_queue s)"
proof (cases "b \<in> pending_builds s")
  case True
  then show ?thesis by (simp add: add_build_again)
next
  case False
  then show ?thesis
    using enqueue_actions_queue [of b
        "(logging INFO (AddedBuild (commit_hash (builds s b)) (clone_url (builds s b))) s)
           \<lparr>pending_builds := insert b (pending_builds s),
            build_ids := (build_ids s)(commit_hash (builds s b) \<mapsto> b)\<rparr>"]
    by (simp add: add_build_def Let_def logging_def)
qed

lemma knownI:
  "j \<in> set (job_queue s) \<or> j \<in> fst ` set (jobs s) \<Longrightarrow> known j s"
  by (simp add: known_def)

lemma known_same:
  "job_queue s' = job_queue s \<Longrightarrow> jobs s' = jobs s \<Longrightarrow> known j s' = known j s"
  by (simp add: known_def)

lemma known_sched_step:
  assumes "known j (sys_world (sched_step c))"
  shows "known j (sys_world c)"
proof (cases "sched c")
  case LoopHead
  with assms show ?thesis
    by (simp add: sched_step_def loop_head_def known_def logging_frame split: if_splits)
next
  case AwaitGet
  show ?thesis
  proof (cases "job_queue (sys_world c)")
    case Nil
    with assms AwaitGet show ?thesis by (simp add: sched_step_def admit_def)
  next
    case (Cons j' rest)
    from admit_Some [OF Cons] obtain s' where
      adm: "admit (sys_world c) =
        Some (if max_running (sys_world c) \<le> int (length (jobs s')) \<or> cancelled (sys_world c)
              then (AwaitSlot (map snd (jobs s')),
                    logging WARNING (RunlimitReached (max_running (sys_world c))) s')
              else (LoopHead, s'))"
      and j: "jobs s' = AList.update j' (next_task (sys_world c)) (jobs (sys_world c))"
      and q: "job_queue s' = rest"
      by blast
    have "known j s'"
      using assms AwaitGet
      by (simp add: sched_step_def adm known_def logging_frame split: if_splits)
    then show ?thesis
      using Cons by (auto simp add: known_def j q AList.dom_update)
  qed
next
  case (AwaitSlot fs)
  with assms show ?thesis by (simp add: sched_step_def split: if_splits)
next
  case Exited
  with assms show ?thesis by (simp add: sched_step_def)
qed

lemma known_done_callback:
  assumes "known j (done_callback f s)"
  shows "known j s"
proof (cases "\<exists>r. task_status (tasks s f) = Finished r")
  case True
  then obtain r where "task_status (tasks s f) = Finished r" ..
  from done_callback_Finished [OF this] assms show ?thesis
    using set_delete_subset [of "task_job (tasks s f)" "jobs s"]
    by (auto simp add: known_def)
next
  case False
  with assms show ?thesis by (simp add: done_callback_other)
qed

lemma known_exec:
  assumes "known j (sys_world (exec e c))"
  shows "known j (sys_world c) \<or> submits (builds (sys_world c)) j e"
proof (cases e)
  case Sched
  with assms known_sched_step [of j c] show ?thesis by (simp add: exec_simps)
next
  case (TaskEnds f r)
  with assms show ?thesis by (simp add: exec_simps known_def task_ends_frame)
next
  case (DoneCallback f)
  with assms known_done_callback [of j f "sys_world c"] show ?thesis by (simp add: exec_simps)
next
  case (JobCompletes j')
  with assms show ?thesis by (simp add: exec_simps known_def job_completes_frame)
next
  case (AddJob j')
  with assms add_job_queue [of j' "sys_world c"] show ?thesis
    by (auto simp add: exec_simps known_def add_job_frame)
next
  case (AddBuild b)
  with assms add_build_queue [of b "sys_world c"] show ?thesis
    by (auto simp add: exec_simps known_def add_build_frame)
next
  case (RemoveBuild b)
  with assms show ?thesis by (simp add: exec_simps known_def remove_build_frame)
next
  case (AbortBuild h)
  with assms show ?thesis by (simp add: exec_simps known_def abort_build_frame)
next
  case (CancelJob j')
  with assms show ?thesis by (simp add: exec_simps known_def cancel_job_frame)
next
  case Cancel
  with assms show ?thesis by (simp add: known_def exec_Cancel cancel_begin_frame)
next
  case CancelResumes
  with assms show ?thesis by (simp add: known_def exec_CancelResumes resume_first_frame)
qed

lemma builds_exec: "builds (sys_world (exec e c)) = builds (sys_world c)"
proof (cases e)
  case Sched
  show ?thesis
  proof (cases "sched c")
    case LoopHead
    then show ?thesis using Sched
      by (simp add: exec_simps sched_step_def loop_head_def logging_frame)
  next
    case AwaitGet
    show ?thesis
    proof (cases "job_queue (sys_world c)")
      case Nil
      then show ?thesis using Sched AwaitGet
        by (simp add: exec_simps sched_step_def admit_def)
    next
      case (Cons j rest)
      from admit_Some [OF Cons] show ?thesis using Sched AwaitGet
        by (auto simp add: exec_simps sched_step_def logging_frame)
    qed
  next
    case (AwaitSlot fs)
    then show ?thesis using Sched by (simp add: exec_simps sched_step_def)
  next
    case Exited
    then show ?thesis using Sched by (simp add: exec_simps sched_step_def)
  qed
next
  case (DoneCallback f)
  show ?thesis
  proof (cases "\<exists>r. task_status (tasks (sys_world c) f) = Finished r")
    case True
    then show ?thesis using DoneCallback
      by (auto simp add: exec_simps done_callback_Finished)
  next
    case False
    then show ?thesis using DoneCallback
      by (simp add: exec_simps done_callback_other)
  qed
qed (simp_all add: exec_simps exec_Cancel exec_CancelResumes task_ends_frame job_completes_frame
      add_job_frame add_build_frame remove_build_frame abort_build_frame cancel_job_frame
      cancel_begin_frame resume_first_frame)

lemma known_run:
  "known j (sys_world (run es c)) \<Longrightarrow>
     known j (sys_world c) \<or> (\<exists>e \<in> set es. submits (builds (sys_world c)) j e)"
proof (induction es arbitrary: c)
  case Nil
  then show ?case by (simp add: run_Nil)
next
  case (Cons e es)
  from Cons.prems have "known j (sys_world (run es (exec e c)))"
    by (simp add: run_Cons)
  from Cons.IH [OF this] known_exec [of j e c] show ?case
    by (auto simp add: builds_exec)
qed

subsection \<open>A job that the full queue rejects\<close>

lemma add_job_rejected:
  "\<not> job_completed (job_objs s j) \<Longrightarrow> 0 < max_jobs_queued s \<Longrightarrow>
   max_jobs_queued s \<le> int (length (job_queue s)) \<Longrightarrow>
   add_job j s = s\<lparr>trace := trace s @ [JobErrorCall j ''overloaded; job was dropped.'']\<rparr>"
  by (simp add: add_job_def full_def job_error_def)

lemma add_job_completed: "job_completed (job_objs s j) \<Longrightarrow> add_job j s = s"
  by (simp add: add_job_def)

lemma never_running:
  assumes same: "job_queue s' = job_queue (sys_world c)" "jobs s' = jobs (sys_world c)"
      "builds s' = builds (sys_world c)"
    and unknown: "\<not> known j (sys_world c)"
    and quiet: "\<forall>e \<in> set es. \<not> submits (builds (sys_world c)) j e"
  shows "j \<notin> fst ` set (jobs (sys_world (run es (c\<lparr>sys_world := s'\<rparr>))))"
proof
  assume "j \<in> fst ` set (jobs (sys_world (run es (c\<lparr>sys_world := s'\<rparr>))))"
  then have "known j (sys_world (run es (c\<lparr>sys_world := s'\<rparr>)))"
    by (simp add: known_def)
  from known_run [OF this] same unknown quiet show False
    by (simp add: known_def)
qed

text \<open>
  C3, as the code has it: for a job that is not completed, \<^verbatim>\<open>add_job\<close> on a queue
  whose capacity is at least one and that holds as many entries as its capacity calls
  \<^verbatim>\<open>job.error\<close> with the overload text and does nothing else: the job is not put into
  the queue. For a completed job \<^verbatim>\<open>add_job\<close> changes nothing at all. In both cases the
  call returns at once (it is one step, with no await), and a job that was neither in
  the queue nor in the running map does not come into the running map in any later run
  in which it is not submitted again.
\<close>

theorem add_job_overload:
  "(\<not> job_completed (job_objs s j) \<and> 0 < max_jobs_queued s \<and>
    max_jobs_queued s \<le> int (length (job_queue s)) \<longrightarrow>
      add_job j s = s\<lparr>trace := trace s @ [JobErrorCall j ''overloaded; job was dropped.'']\<rparr>) \<and>
   (job_completed (job_objs s j) \<longrightarrow> add_job j s = s) \<and>
   ((job_completed (job_objs s j) \<or>
     0 < max_jobs_queued s \<and> max_jobs_queued s \<le> int (length (job_queue s))) \<and>
    sys_world c = s \<and> \<not> known j s \<and> (\<forall>e \<in> set es. \<not> submits (builds s) j e) \<longrightarrow>
      j \<notin> fst ` set (jobs (sys_world (run es (c\<lparr>sys_world := add_job j s\<rparr>)))))"
proof -
  have "j \<notin> fst ` set (jobs (sys_world (run es (c\<lparr>sys_world := add_job j s\<rparr>))))"
    if "job_completed (job_objs s j) \<or>
        0 < max_jobs_queued s \<and> max_jobs_queued s \<le> int (length (job_queue s))"
      and "sys_world c = s" and "\<not> known j s" and "\<forall>e \<in> set es. \<not> submits (builds s) j e"
  proof (rule never_running)
    show "job_queue (add_job j s) = job_queue (sys_world c)"
      using that(1,2) by (auto simp add: add_job_def full_def job_error_def)
    show "jobs (add_job j s) = jobs (sys_world c)"
      using that(2) by (simp add: add_job_frame)
    show "builds (add_job j s) = builds (sys_world c)"
      using that(2) by (simp add: add_job_frame)
    show "\<not> known j (sys_world c)"
      using that(2,3) by simp
    show "\<forall>e \<in> set es. \<not> submits (builds (sys_world c)) j e"
      using that(2,4) by simp
  qed
  then show ?thesis
    using add_job_rejected [of s j] add_job_completed [of s j] by blast
qed

text \<open>
  A queue of capacity 2 that holds the jobs 0 and 1 rejects job 2; the scheduler
  then runs job 0 and job 1, and job 2 never is in the running map.
\<close>

theorem add_job_overload_witness:
  "\<not> job_completed (job_objs (add_job 1 (add_job 0 (example_queue 2 1))) 2) \<and>
   0 < max_jobs_queued (add_job 1 (add_job 0 (example_queue 2 1))) \<and>
   max_jobs_queued (add_job 1 (add_job 0 (example_queue 2 1)))
     \<le> int (length (job_queue (add_job 1 (add_job 0 (example_queue 2 1))))) \<and>
   add_job 2 (add_job 1 (add_job 0 (example_queue 2 1))) =
     (add_job 1 (add_job 0 (example_queue 2 1)))
       \<lparr>trace := [JobErrorCall 2 ''overloaded; job was dropped.'']\<rparr> \<and>
   job_queue (add_job 2 (add_job 1 (add_job 0 (example_queue 2 1)))) = [0, 1] \<and>
   2 \<notin> fst ` set (jobs (sys_world (run
       [Sched, Sched, TaskEnds 0 TaskResult, DoneCallback 0, Sched, Sched, Sched]
       \<lparr>sys_world = add_job 2 (add_job 1 (add_job 0 (example_queue 2 1))),
        sched = LoopHead, cancel_waits = []\<rparr>)))"
proof -
  let ?s = "add_job 1 (add_job 0 (example_queue 2 1))"
  let ?c = "\<lparr>sys_world = ?s, sched = LoopHead, cancel_waits = []\<rparr>"
  let ?es = "[Sched, Sched, TaskEnds 0 TaskResult, DoneCallback 0, Sched, Sched, Sched]"
  have q: "job_queue ?s = [0, 1]" and t: "trace ?s = []" and m: "max_jobs_queued ?s = 2"
    and nc: "\<not> job_completed (job_objs ?s 2)" and r: "jobs ?s = []"
    by (simp_all add: eval_defs)
  have k: "\<not> known 2 ?s"
    by (simp add: known_def eval_defs)
  have e: "\<forall>e \<in> set ?es. \<not> submits (builds ?s) 2 e"
    by simp
  note th = add_job_overload [where s = ?s and j = 2 and c = ?c and es = ?es]
  have 1: "add_job 2 ?s = ?s\<lparr>trace := [JobErrorCall 2 ''overloaded; job was dropped.'']\<rparr>"
    using th nc m q t by simp
  have 2: "2 \<notin> fst ` set (jobs (sys_world (run ?es (?c\<lparr>sys_world := add_job 2 ?s\<rparr>))))"
    using th m q k e by simp
  show ?thesis
    using nc m q 1 2 by simp
qed

text \<open>
  The claim as it was stated holds for every capacity. An \<^verbatim>\<open>asyncio.Queue\<close> whose
  \<^verbatim>\<open>maxsize\<close> is 0 is unbounded: the empty queue holds as many entries as its
  capacity, and \<^verbatim>\<open>add_job\<close> puts the job into it without an error; the scheduler
  then runs the job.
\<close>

theorem capacity_zero_counterexample:
  "int (length (job_queue (example_queue 0 1))) = max_jobs_queued (example_queue 0 1) \<and>
   \<not> job_completed (job_objs (example_queue 0 1) 0) \<and>
   add_job 0 (example_queue 0 1) = (example_queue 0 1)\<lparr>job_queue := [0]\<rparr> \<and>
   trace (add_job 0 (example_queue 0 1)) = [] \<and>
   jobs (sys_world (run [AddJob 0, Sched, Sched] (example_start 0 1))) = [(0, 0)]"
  by (simp add: eval_defs)

subsection \<open>Cancelling the queue\<close>








lemma gather_Some_iff: "(gather fs s \<noteq> None) = (\<forall>f \<in> set fs. is_settled (tasks s f))"
  by (simp add: gather_def list_all_iff)



lemma cancel_resume_None_iff:
  "(cancel_resume fs n s = None) = (\<not> (\<forall>f \<in> set fs. is_settled (tasks s f)))"
  by (simp add: cancel_resume_def gather_def list_all_iff Let_def)




lemma cancel_resume_tasks:
  "tasks s' = tasks s \<Longrightarrow> (cancel_resume fs n s' = None) = (cancel_resume fs n s = None)"
  by (simp add: cancel_resume_None_iff)









end
